theory Spec2Isabelle
  imports Complex_Main
begin

section \<open>The cache simulator of stage5\_cache\_simulator.py\<close>

text \<open>
  The development embeds the class \<^verbatim>\<open>CacheSimulator\<close> and the function
  \<^verbatim>\<open>generate_access_pattern\<close> of \<^verbatim>\<open>src/python/stage5_cache_simulator.py\<close>.

  Conventions of the embedding.
  \<^item> Python integers are \<^typ>\<open>int\<close>. A float is the \<^typ>\<open>real\<close> number that the
    double stands for, and every operation on floats rounds its exact result to the
    nearest double, as IEEE 754 binary64 arithmetic does.
  \<^item> The \<^verbatim>\<open>OrderedDict\<close> \<^verbatim>\<open>cache\<close> stores the value \<^verbatim>\<open>True\<close> under every key, so it
    is the list of its keys in iteration order. The dict \<^verbatim>\<open>frequency\<close> is the list of
    its items in insertion order, which is the order \<^verbatim>\<open>min\<close> iterates in.
  \<^item> A method mutates \<^verbatim>\<open>self\<close> and may raise. It is a function from the object to
    a pair: what the call did (an exception, or the returned value) and the object as the
    call left it, also when it raised half way.
  \<^item> The module \<^verbatim>\<open>random\<close> is a global source of randomness. A call of \<^verbatim>\<open>access\<close> draws
    from it at most once (\<^verbatim>\<open>random.choice\<close> in \<^verbatim>\<open>_evict\<close>), so \<^verbatim>\<open>access\<close> takes
    that draw as a natural number \<open>r\<close>, and \<^verbatim>\<open>random.choice(xs)\<close> is
    \<open>xs ! (r mod length xs)\<close>: every element can be chosen.
\<close>

subsection \<open>Data\<close>

datatype ReplacementPolicy = LRU | FIFO | LFU | RANDOM

datatype py_error = StopIteration | IndexError | ValueError | KeyError

record CacheSimulator =
  capacity :: int
  policy :: ReplacementPolicy
  cache :: "int list"
  frequency :: "(int \<times> int) list"
  fifo_queue :: "int list"
  hits :: int
  misses :: int
  accesses :: "int list"
  hit_rate_history :: "real list"

record Statistics =
  stat_hits :: int
  stat_misses :: int
  total_accesses :: int
  hit_rate :: real
  miss_rate :: real

subsection \<open>Operations of OrderedDict and dict\<close>

text \<open>\<^verbatim>\<open>d[k] = True\<close> on the ordered dict: a new key goes to the end, a present key keeps
  its place.\<close>

definition od_set :: "int \<Rightarrow> int list \<Rightarrow> int list" where
  "od_set k xs = (if k \<in> set xs then xs else xs @ [k])"

text \<open>\<^verbatim>\<open>del d[k]\<close>: KeyError when the key is absent.\<close>

definition od_del :: "int \<Rightarrow> int list \<Rightarrow> py_error + int list" where
  "od_del k xs = (if k \<in> set xs then Inr (removeAll k xs) else Inl KeyError)"

text \<open>\<^verbatim>\<open>d.move_to_end(k)\<close>: KeyError when the key is absent.\<close>

definition od_move_to_end :: "int \<Rightarrow> int list \<Rightarrow> py_error + int list" where
  "od_move_to_end k xs =
     (if k \<in> set xs then Inr (removeAll k xs @ [k]) else Inl KeyError)"

text \<open>\<^verbatim>\<open>d.get(k, default)\<close>.\<close>

definition dict_get :: "int \<Rightarrow> int \<Rightarrow> (int \<times> int) list \<Rightarrow> int" where
  "dict_get k dflt d = (case map_of d k of None \<Rightarrow> dflt | Some v \<Rightarrow> v)"

text \<open>\<^verbatim>\<open>d[k] = v\<close> on a dict: a present key keeps its place in the iteration order, a
  new key is last.\<close>

fun dict_set :: "int \<Rightarrow> int \<Rightarrow> (int \<times> int) list \<Rightarrow> (int \<times> int) list" where
  "dict_set k v [] = [(k, v)]"
| "dict_set k v (p # ps) = (if fst p = k then (k, v) # ps else p # dict_set k v ps)"

definition dict_del :: "int \<Rightarrow> (int \<times> int) list \<Rightarrow> py_error + (int \<times> int) list" where
  "dict_del k d =
     (if k \<in> fst ` set d then Inr (filter (\<lambda>p. fst p \<noteq> k) d) else Inl KeyError)"

text \<open>\<^verbatim>\<open>min(d, key=d.get)\<close>: the keys are visited in iteration order and a later key
  replaces the best one only when its value is strictly smaller, so the first key of
  minimal value is returned; ValueError on an empty dict.\<close>

fun min_scan :: "int \<times> int \<Rightarrow> (int \<times> int) list \<Rightarrow> int" where
  "min_scan best [] = fst best"
| "min_scan best (p # ps) = (if snd p < snd best then min_scan p ps else min_scan best ps)"

definition dict_min_key :: "(int \<times> int) list \<Rightarrow> py_error + int" where
  "dict_min_key d = (case d of [] \<Rightarrow> Inl ValueError | p # ps \<Rightarrow> Inr (min_scan p ps))"

subsection \<open>Double-precision arithmetic\<close>

text \<open>
  A Python float is an IEEE 754 double: 53 significant bits, and the spacing
  \<open>2 ^ - 1074\<close> of the subnormal numbers at the bottom of the range. An operation
  returns the double nearest to its exact result, a tie going to the double with the even
  significand. \<open>bit_length n\<close> is the number of binary digits of \<open>n\<close>, and
  \<open>floor_log2 x\<close> is, for positive \<open>x\<close>, the exponent \<open>e\<close> with
  \<open>2 ^ e \<le> x < 2 ^ (e + 1)\<close>. The top of the range is not modelled: a result of
  magnitude \<open>2 ^ 1024\<close> or more does not arise from counters with
  \<open>0 \<le> hits \<le> total\<close>, whose quotient lies between 0 and 1.
\<close>

fun bit_length :: "nat \<Rightarrow> nat" where
  "bit_length n = (if n = 0 then 0 else Suc (bit_length (n div 2)))"

definition floor_log2 :: "real \<Rightarrow> int" where
  "floor_log2 x =
     (if 1 \<le> x then int (bit_length (nat \<lfloor>x\<rfloor>)) - 1
      else - int (bit_length (nat (\<lceil>1 / x\<rceil> - 1))))"

definition pow2 :: "int \<Rightarrow> real" where
  "pow2 e = (if 0 \<le> e then 2 ^ nat e else 1 / 2 ^ nat (- e))"

definition round_half_even :: "real \<Rightarrow> int" where
  "round_half_even x =
     (let f = \<lfloor>x\<rfloor>; d = x - of_int f
      in if d < 1 / 2 then f else if 1 / 2 < d then f + 1
         else if even f then f else f + 1)"

definition round_double :: "real \<Rightarrow> real" where
  "round_double x =
     (if x = 0 then 0
      else (let q = max (floor_log2 \<bar>x\<bar> - 52) (- 1074)
            in of_int (round_half_even (x / pow2 q)) * pow2 q))"

text \<open>\<^verbatim>\<open>a / b\<close> on two ints (the quotient is rounded once), \<^verbatim>\<open>x * y\<close> and
  \<^verbatim>\<open>x - y\<close> on floats; an int operand of the last two is converted first, which is
  exact for \<open>100\<close>.\<close>

definition int_true_div :: "int \<Rightarrow> int \<Rightarrow> real" where
  "int_true_div a b = round_double (of_int a / of_int b)"

definition float_mul :: "real \<Rightarrow> real \<Rightarrow> real" where
  "float_mul x y = round_double (x * y)"

definition float_sub :: "real \<Rightarrow> real \<Rightarrow> real" where
  "float_sub x y = round_double (x - y)"

subsection \<open>The class CacheSimulator\<close>

text \<open>The fields that \<^verbatim>\<open>__init__\<close> assigns.\<close>

definition new_sim :: "int \<Rightarrow> ReplacementPolicy \<Rightarrow> CacheSimulator" where
  "new_sim c p =
     \<lparr>capacity = c, policy = p, cache = [], frequency = [], fifo_queue = [],
      hits = 0, misses = 0, accesses = [], hit_rate_history = []\<rparr>"

text \<open>The call \<^verbatim>\<open>CacheSimulator(capacity, policy)\<close>. The body of \<^verbatim>\<open>__init__\<close> has
  no \<^verbatim>\<open>raise\<close> and compares the capacity with nothing, so the call returns the object.\<close>

definition CacheSimulator_init :: "int \<Rightarrow> ReplacementPolicy \<Rightarrow> py_error + CacheSimulator" where
  "CacheSimulator_init c p = Inr (new_sim c p)"

definition get_hit_rate :: "CacheSimulator \<Rightarrow> real" where
  "get_hit_rate s =
     (let total = hits s + misses s
      in if total > 0 then float_mul (int_true_div (hits s) total) 100 else 0)"

definition get_statistics :: "CacheSimulator \<Rightarrow> Statistics" where
  "get_statistics s =
     \<lparr>stat_hits = hits s, stat_misses = misses s, total_accesses = hits s + misses s,
      hit_rate = get_hit_rate s, miss_rate = float_sub 100 (get_hit_rate s)\<rparr>"

definition update_on_hit :: "CacheSimulator \<Rightarrow> int \<Rightarrow> py_error option \<times> CacheSimulator" where
  "update_on_hit s address =
     (if policy s = LRU then
        (case od_move_to_end address (cache s) of
           Inl e \<Rightarrow> (Some e, s)
         | Inr c \<Rightarrow> (None, s\<lparr>cache := c\<rparr>))
      else if policy s = LFU then
        (None, s\<lparr>frequency :=
                   dict_set address (dict_get address 0 (frequency s) + 1) (frequency s)\<rparr>)
      else (None, s))"

definition evict :: "CacheSimulator \<Rightarrow> nat \<Rightarrow> py_error option \<times> CacheSimulator" where
  "evict s r =
     (if policy s = LRU then
        (case cache s of
           [] \<Rightarrow> (Some StopIteration, s)
         | evicted_addr # _ \<Rightarrow>
             (case od_del evicted_addr (cache s) of
                Inl e \<Rightarrow> (Some e, s)
              | Inr c \<Rightarrow> (None, s\<lparr>cache := c\<rparr>)))
      else if policy s = FIFO then
        (case fifo_queue s of
           [] \<Rightarrow> (Some IndexError, s)
         | evicted_addr # q \<Rightarrow>
             (let s1 = s\<lparr>fifo_queue := q\<rparr>
              in case od_del evicted_addr (cache s1) of
                   Inl e \<Rightarrow> (Some e, s1)
                 | Inr c \<Rightarrow> (None, s1\<lparr>cache := c\<rparr>)))
      else if policy s = LFU then
        (case dict_min_key (frequency s) of
           Inl e \<Rightarrow> (Some e, s)
         | Inr min_freq_addr \<Rightarrow>
             (case od_del min_freq_addr (cache s) of
                Inl e \<Rightarrow> (Some e, s)
              | Inr c \<Rightarrow>
                  (let s1 = s\<lparr>cache := c\<rparr>
                   in case dict_del min_freq_addr (frequency s1) of
                        Inl e \<Rightarrow> (Some e, s1)
                      | Inr f \<Rightarrow> (None, s1\<lparr>frequency := f\<rparr>))))
      else if policy s = RANDOM then
        (if cache s = [] then (Some IndexError, s)
         else
           (let evicted_addr = cache s ! (r mod length (cache s))
            in case od_del evicted_addr (cache s) of
                 Inl e \<Rightarrow> (Some e, s)
               | Inr c \<Rightarrow> (None, s\<lparr>cache := c\<rparr>)))
      else (None, s))"

definition update_on_miss ::
  "CacheSimulator \<Rightarrow> nat \<Rightarrow> int \<Rightarrow> py_error option \<times> CacheSimulator" where
  "update_on_miss s r address =
     (case (if int (length (cache s)) \<ge> capacity s then evict s r else (None, s)) of
        (Some e, s1) \<Rightarrow> (Some e, s1)
      | (None, s1) \<Rightarrow>
          (let s2 = s1\<lparr>cache := od_set address (cache s1)\<rparr>
           in if policy s2 = LFU then
                (None, s2\<lparr>frequency := dict_set address 1 (frequency s2)\<rparr>)
              else if policy s2 = FIFO then
                (None, s2\<lparr>fifo_queue := fifo_queue s2 @ [address]\<rparr>)
              else if policy s2 = LRU then
                (case od_move_to_end address (cache s2) of
                   Inl e \<Rightarrow> (Some e, s2)
                 | Inr c \<Rightarrow> (None, s2\<lparr>cache := c\<rparr>))
              else (None, s2)))"

definition access :: "CacheSimulator \<Rightarrow> nat \<Rightarrow> int \<Rightarrow> (py_error + bool) \<times> CacheSimulator" where
  "access s r address =
     (let s0 = s\<lparr>accesses := accesses s @ [address]\<rparr>
      in if address \<in> set (cache s0) then
           (let s1 = s0\<lparr>hits := hits s0 + 1\<rparr>
            in case update_on_hit s1 address of
                 (Some e, s2) \<Rightarrow> (Inl e, s2)
               | (None, s2) \<Rightarrow>
                   (Inr True, s2\<lparr>hit_rate_history := hit_rate_history s2 @ [get_hit_rate s2]\<rparr>))
         else
           (let s1 = s0\<lparr>misses := misses s0 + 1\<rparr>
            in case update_on_miss s1 r address of
                 (Some e, s2) \<Rightarrow> (Inl e, s2)
               | (None, s2) \<Rightarrow>
                   (Inr False, s2\<lparr>hit_rate_history := hit_rate_history s2 @ [get_hit_rate s2]\<rparr>)))"

subsection \<open>Feeding a trace\<close>

text \<open>
  A step of a trace is the draw the module \<^verbatim>\<open>random\<close> would give during the call,
  paired with the address. \<open>simulate\<close> is the loop
  \<^verbatim>\<open>for addr in pattern: sim.access(addr)\<close> of \<^verbatim>\<open>compare_policies\<close> and of the main
  block: an exception of a call ends it. It returns the outcome of every call and the
  object. \<open>run_all\<close> is a caller that goes on after a call has raised: every
  object that calls of \<^verbatim>\<open>access\<close> can produce is \<open>run_all s steps\<close> for some steps.
\<close>

fun simulate ::
  "CacheSimulator \<Rightarrow> (nat \<times> int) list \<Rightarrow> py_error + (bool list \<times> CacheSimulator)" where
  "simulate s [] = Inr ([], s)"
| "simulate s ((r, addr) # steps) =
     (case access s r addr of
        (Inl e, s') \<Rightarrow> Inl e
      | (Inr b, s') \<Rightarrow>
          (case simulate s' steps of
             Inl e \<Rightarrow> Inl e
           | Inr (bs, s'') \<Rightarrow> Inr (b # bs, s'')))"

fun run_all :: "CacheSimulator \<Rightarrow> (nat \<times> int) list \<Rightarrow> CacheSimulator" where
  "run_all s [] = s"
| "run_all s ((r, addr) # steps) = run_all (snd (access s r addr)) steps"

subsection \<open>The trace generator\<close>

text \<open>
  \<^verbatim>\<open>generate_access_pattern\<close> reads the global module \<^verbatim>\<open>random\<close>; here the source of
  randomness is the argument \<open>g\<close>, a stream of raw draws. The \<open>k\<close>-th draw gives
  \<^verbatim>\<open>random.randint(a, b)\<close> as a value of \<open>[a, b]\<close> and the test
  \<^verbatim>\<open>random.random() < 0.8\<close> as a truth value.
\<close>

definition randint :: "(nat \<Rightarrow> nat) \<Rightarrow> nat \<Rightarrow> int \<Rightarrow> int \<Rightarrow> int" where
  "randint g k a b = a + int (g k mod nat (b - a + 1))"

definition random_below_08 :: "(nat \<Rightarrow> nat) \<Rightarrow> nat \<Rightarrow> bool" where
  "random_below_08 g k = (g k mod 10 < 8)"

fun locality_loop :: "(nat \<Rightarrow> nat) \<Rightarrow> nat \<Rightarrow> nat \<Rightarrow> int \<Rightarrow> int list" where
  "locality_loop g i 0 current = []"
| "locality_loop g i (Suc n) current =
     current #
     locality_loop g (Suc i) n
       (if random_below_08 g (2 * i) then current + randint g (2 * i + 1) 1 5
        else current + randint g (2 * i + 1) 20 100)"

definition generate_access_pattern :: "(nat \<Rightarrow> nat) \<Rightarrow> string \<Rightarrow> int \<Rightarrow> int list" where
  "generate_access_pattern g pattern_type length' =
     (if pattern_type = ''sequential'' then [0 ..length' - 1]
      else if pattern_type = ''random'' then
        map (\<lambda>i. randint g i 0 (length' div 2)) [0 ..< nat length']
      else if pattern_type = ''locality'' then locality_loop g 0 (nat length') 0
      else if pattern_type = ''stride'' then
        (let stride = 4 in map (\<lambda>i. i * stride) [0 ..length' - 1])
      else [])"

subsection \<open>Auxiliary predicates of the proofs\<close>

text \<open>The fields that neither an eviction nor an insertion touches.\<close>

definition same_counters :: "CacheSimulator \<Rightarrow> CacheSimulator \<Rightarrow> bool" where
  "same_counters s s' \<longleftrightarrow>
     capacity s' = capacity s \<and> policy s' = policy s \<and> hits s' = hits s \<and>
     misses s' = misses s \<and> accesses s' = accesses s \<and>
     hit_rate_history s' = hit_rate_history s"

text \<open>The statements of \<^verbatim>\<open>_update_on_miss\<close> after the eviction, as they stand in
  the definition of \<open>update_on_miss\<close>.\<close>

abbreviation insert_part :: "CacheSimulator \<Rightarrow> int \<Rightarrow> py_error option \<times> CacheSimulator" where
  "insert_part s1 a \<equiv>
     (let s2 = s1\<lparr>cache := od_set a (cache s1)\<rparr>
      in if policy s2 = LFU then
           (None, s2\<lparr>frequency := dict_set a 1 (frequency s2)\<rparr>)
         else if policy s2 = FIFO then
           (None, s2\<lparr>fifo_queue := fifo_queue s2 @ [a]\<rparr>)
         else if policy s2 = LRU then
           (case od_move_to_end a (cache s2) of
              Inl e \<Rightarrow> (Some e, s2)
            | Inr c \<Rightarrow> (None, s2\<lparr>cache := c\<rparr>))
         else (None, s2))"

text \<open>
  The state of a simulator that calls of \<^verbatim>\<open>access\<close> keep up when the capacity is at
  least 1: the keys of the cache are distinct and at most \<open>capacity\<close>, under FIFO the
  queue lists them in the order of the cache, and under LFU so do the keys of
  \<^verbatim>\<open>frequency\<close>.
\<close>

definition consistent :: "CacheSimulator \<Rightarrow> bool" where
  "consistent s \<longleftrightarrow>
     1 \<le> capacity s \<and> int (length (cache s)) \<le> capacity s \<and> distinct (cache s) \<and>
     (policy s = FIFO \<longrightarrow> fifo_queue s = cache s) \<and>
     (policy s = LFU \<longrightarrow> map fst (frequency s) = cache s)"

text \<open>
  The hit rate in the words of the specification, as a real number: \<^verbatim>\<open>100 * hits / total\<close>
  when \<^verbatim>\<open>total > 0\<close>, else \<^verbatim>\<open>0.0\<close>. Next to it, the float that the expression
  \<^verbatim>\<open>hits / total * 100\<close> of \<^verbatim>\<open>get_hit_rate\<close> gives for \<open>h\<close> hits in \<open>n\<close> calls, and
  the number of hits among the outcomes of a sequence of calls.
\<close>

definition spec_hit_rate :: "nat \<Rightarrow> nat \<Rightarrow> real" where
  "spec_hit_rate h n = (if n = 0 then 0 else 100 * real h / real n)"

definition double_hit_rate :: "nat \<Rightarrow> nat \<Rightarrow> real" where
  "double_hit_rate h n =
     (if n = 0 then 0 else float_mul (int_true_div (int h) (int n)) 100)"

definition count_hits :: "bool list \<Rightarrow> nat" where
  "count_hits bs = length (filter id bs)"

section \<open>Properties\<close>

lemmas sim_defs = access_def update_on_hit_def update_on_miss_def evict_def new_sim_def
  od_set_def od_del_def od_move_to_end_def dict_get_def dict_del_def dict_min_key_def
  get_hit_rate_def Let_def

subsection \<open>The rounding\<close>

declare bit_length.simps [simp del]

lemmas float_defs = float_mul_def float_sub_def int_true_div_def round_double_def
  floor_log2_def pow2_def round_half_even_def bit_length.simps

text \<open>\<open>floor_log2\<close> is the binary exponent, and rounding to an integer moves a number by
  at most one half.\<close>

lemma bit_length_bounds:
  "0 < n \<Longrightarrow> 2 ^ (bit_length n - 1) \<le> n \<and> n < 2 ^ bit_length n"
proof (induction n rule: bit_length.induct)
  case (1 n)
  show ?case
  proof (cases "n div 2 = 0")
    case True
    with "1.prems" have "n = 1" by presburger
    then show ?thesis by (simp add: bit_length.simps)
  next
    case False
    with "1.IH" "1.prems" have ih:
      "2 ^ (bit_length (n div 2) - 1) \<le> n div 2" "n div 2 < 2 ^ bit_length (n div 2)"
      by simp_all
    from False have pos: "0 < bit_length (n div 2)" by (simp add: bit_length.simps)
    have bl: "bit_length n = Suc (bit_length (n div 2))"
      using "1.prems" by (subst bit_length.simps) simp
    from pos have "(2::nat) ^ bit_length (n div 2) = 2 * 2 ^ (bit_length (n div 2) - 1)"
      by (cases "bit_length (n div 2)") simp_all
    with ih(1) have "2 ^ bit_length (n div 2) \<le> n" by linarith
    moreover from ih(2) have "n < 2 * 2 ^ bit_length (n div 2)" by linarith
    ultimately show ?thesis by (simp add: bl)
  qed
qed

lemma pow2_nat: "pow2 (int j) = 2 ^ j"
  by (simp add: pow2_def)

lemma pow2_neg: "pow2 (- int k) = 1 / 2 ^ k"
  by (simp add: pow2_def)

lemma floor_log2_bounds:
  assumes "0 < x"
  shows "pow2 (floor_log2 x) \<le> x \<and> x < pow2 (floor_log2 x + 1)"
proof (cases "1 \<le> x")
  case True
  define n where "n = nat \<lfloor>x\<rfloor>"
  define k where "k = bit_length n"
  from True have n: "0 < n" "real n \<le> x" "x < real n + 1"
    by (simp_all add: n_def)
  from bit_length_bounds [OF n(1)] have b:
    "2 ^ (k - 1) \<le> n" "n + 1 \<le> 2 ^ k" by (simp_all add: k_def)
  from n(1) have pos: "0 < k" by (simp add: k_def bit_length.simps)
  from True have "floor_log2 x = int k - 1"
    by (simp add: floor_log2_def n_def k_def)
  with pos have "floor_log2 x = int (k - 1)" "floor_log2 x + 1 = int k" by simp_all
  then have e: "pow2 (floor_log2 x) = 2 ^ (k - 1)" "pow2 (floor_log2 x + 1) = 2 ^ k"
    by (simp_all only: pow2_nat)
  from b(1) have lo: "(2::real) ^ (k - 1) \<le> real n"
    using of_nat_mono [of "2 ^ (k - 1)" n, where ?'a = real] by simp
  from b(2) have hi: "real n + 1 \<le> (2::real) ^ k"
    using of_nat_mono [of "n + 1" "2 ^ k", where ?'a = real] by simp
  from lo hi n(2,3) show ?thesis unfolding e by linarith
next
  case False
  define y where "y = 1 / x"
  define m where "m = nat (\<lceil>y\<rceil> - 1)"
  define k where "k = bit_length m"
  from False assms have y: "1 < y" by (simp add: y_def)
  then have "2 \<le> \<lceil>y\<rceil>" by linarith
  then have m: "0 < m" "real m < y" "y \<le> real m + 1"
    unfolding m_def by linarith+
  from bit_length_bounds [OF m(1)] have b:
    "2 ^ (k - 1) \<le> m" "m + 1 \<le> 2 ^ k" by (simp_all add: k_def)
  from m(1) have pos: "0 < k" by (simp add: k_def bit_length.simps)
  from False have "floor_log2 x = - int k"
    by (simp add: floor_log2_def m_def y_def k_def)
  with pos have "floor_log2 x = - int k" "floor_log2 x + 1 = - int (k - 1)" by simp_all
  then have e: "pow2 (floor_log2 x) = 1 / 2 ^ k" "pow2 (floor_log2 x + 1) = 1 / 2 ^ (k - 1)"
    by (simp_all only: pow2_neg)
  from b(1) have "(2::real) ^ (k - 1) \<le> real m"
    using of_nat_mono [of "2 ^ (k - 1)" m, where ?'a = real] by simp
  with m(2) have lo: "(2::real) ^ (k - 1) < 1 / x" unfolding y_def by linarith
  from b(2) have "real m + 1 \<le> (2::real) ^ k"
    using of_nat_mono [of "m + 1" "2 ^ k", where ?'a = real] by simp
  with m(3) have hi: "1 / x \<le> (2::real) ^ k" unfolding y_def by linarith
  from hi assms have 1: "1 / 2 ^ k \<le> x"
    by (simp add: field_simps)
  from lo assms have 2: "x < 1 / 2 ^ (k - 1)"
    by (simp add: field_simps)
  from 1 2 show ?thesis unfolding e by simp
qed

lemma round_half_even_near: "\<bar>x - of_int (round_half_even x)\<bar> \<le> 1 / 2"
  by (simp add: round_half_even_def Let_def)

lemma round_double_0: "round_double 0 = 0"
  by (simp add: round_double_def)

lemma round_double_1: "round_double 1 = 1"
  by (simp add: float_defs)

lemma round_double_100: "round_double 100 = 100"
  by (simp add: float_defs)

lemma no_hits_rate: "hits s = 0 \<Longrightarrow> get_hit_rate s = 0"
  by (simp add: get_hit_rate_def Let_def int_true_div_def float_mul_def round_double_0)

subsection \<open>Frame and size lemmas\<close>

lemma same_counters_simps:
  "same_counters s s"
  "same_counters s (s'\<lparr>cache := c\<rparr>) = same_counters s s'"
  "same_counters s (s'\<lparr>frequency := f\<rparr>) = same_counters s s'"
  "same_counters s (s'\<lparr>fifo_queue := q\<rparr>) = same_counters s s'"
  by (simp_all add: same_counters_def)

lemma od_del_Inr:
  "od_del k xs = Inr ys \<Longrightarrow> length ys < length xs \<and> ys = removeAll k xs \<and> k \<in> set xs"
  by (auto simp: od_del_def length_removeAll_less split: if_splits)

lemma evict_LRU:
  "policy s = LRU \<Longrightarrow> evict s r =
     (case cache s of
        [] \<Rightarrow> (Some StopIteration, s)
      | evicted_addr # _ \<Rightarrow>
          (case od_del evicted_addr (cache s) of
             Inl e \<Rightarrow> (Some e, s)
           | Inr c \<Rightarrow> (None, s\<lparr>cache := c\<rparr>)))"
  by (simp add: evict_def)

lemma evict_FIFO:
  "policy s = FIFO \<Longrightarrow> evict s r =
     (case fifo_queue s of
        [] \<Rightarrow> (Some IndexError, s)
      | evicted_addr # q \<Rightarrow>
          (case od_del evicted_addr (cache s) of
             Inl e \<Rightarrow> (Some e, s\<lparr>fifo_queue := q\<rparr>)
           | Inr c \<Rightarrow> (None, s\<lparr>fifo_queue := q, cache := c\<rparr>)))"
  by (simp add: evict_def Let_def split: list.splits sum.splits)

lemma evict_LFU:
  "policy s = LFU \<Longrightarrow> evict s r =
     (case dict_min_key (frequency s) of
        Inl e \<Rightarrow> (Some e, s)
      | Inr m \<Rightarrow>
          (case od_del m (cache s) of
             Inl e \<Rightarrow> (Some e, s)
           | Inr c \<Rightarrow>
               (case dict_del m (frequency s) of
                  Inl e \<Rightarrow> (Some e, s\<lparr>cache := c\<rparr>)
                | Inr f \<Rightarrow> (None, s\<lparr>cache := c, frequency := f\<rparr>))))"
  by (simp add: evict_def Let_def split: list.splits sum.splits)

lemma evict_RANDOM:
  "policy s = RANDOM \<Longrightarrow> evict s r =
     (if cache s = [] then (Some IndexError, s)
      else (case od_del (cache s ! (r mod length (cache s))) (cache s) of
              Inl e \<Rightarrow> (Some e, s)
            | Inr c \<Rightarrow> (None, s\<lparr>cache := c\<rparr>)))"
  by (simp add: evict_def Let_def)

lemma evict_props:
  assumes "evict s r = (e, s')"
  shows "same_counters s s' \<and> length (cache s') \<le> length (cache s) \<and>
         (e = None \<longrightarrow> length (cache s') < length (cache s))"
proof (cases "policy s")
  case LRU
  with assms show ?thesis
    by (auto simp: evict_LRU same_counters_simps split: list.splits sum.splits dest!: od_del_Inr)
next
  case FIFO
  with assms show ?thesis
    by (auto simp: evict_FIFO same_counters_simps split: list.splits sum.splits dest!: od_del_Inr)
next
  case LFU
  with assms show ?thesis
    by (auto simp: evict_LFU same_counters_simps split: list.splits sum.splits dest!: od_del_Inr)
next
  case RANDOM
  with assms show ?thesis
    by (auto simp: evict_RANDOM same_counters_simps split: if_splits sum.splits dest!: od_del_Inr)
qed

lemma length_move_to_end:
  "a \<in> set xs \<Longrightarrow> length (removeAll a xs) + 1 \<le> length xs"
  using length_removeAll_less [of a xs] by simp

lemma update_on_hit_counters: "same_counters s (snd (update_on_hit s a))"
  by (simp add: update_on_hit_def same_counters_simps split: sum.splits)

lemma update_on_hit_resident:
  "a \<in> set (cache s) \<Longrightarrow>
     fst (update_on_hit s a) = None \<and> set (cache (snd (update_on_hit s a))) = set (cache s) \<and>
     length (cache (snd (update_on_hit s a))) \<le> length (cache s)"
  using length_move_to_end [of a "cache s"]
  by (auto simp: update_on_hit_def od_move_to_end_def)

lemma insert_props:
  assumes "insert_part s1 a = (e', s')"
  shows "same_counters s1 s' \<and> length (cache s') \<le> length (cache s1) + 1"
  using assms length_move_to_end [of a "cache s1"]
  by (auto simp: Let_def od_set_def od_move_to_end_def same_counters_simps
      split: if_splits)

lemma update_on_miss_props:
  assumes "update_on_miss s r a = (e, s')"
  shows "same_counters s s' \<and>
         (int (length (cache s)) \<le> capacity s \<longrightarrow> int (length (cache s')) \<le> capacity s)"
proof -
  obtain e1 s1 where pre:
    "(if int (length (cache s)) \<ge> capacity s then evict s r else (None, s)) = (e1, s1)"
    by (cases "if int (length (cache s)) \<ge> capacity s then evict s r else (None, s)")
  have p1: "same_counters s s1 \<and> length (cache s1) \<le> length (cache s) \<and>
        (int (length (cache s)) \<ge> capacity s \<and> e1 = None \<longrightarrow>
           length (cache s1) < length (cache s))"
    using pre evict_props [of s r e1 s1]
    by (auto simp: same_counters_simps split: if_splits)
  show ?thesis
  proof (cases e1)
    case (Some err)
    with assms pre p1 show ?thesis by (auto simp: update_on_miss_def)
  next
    case None
    with assms pre have ins: "insert_part s1 a = (e, s')"
      by (simp add: update_on_miss_def)
    from insert_props [OF ins] p1 None show ?thesis
      by (auto simp: same_counters_def)
  qed
qed


text \<open>The two branches of \<^verbatim>\<open>access\<close>.\<close>

lemma access_hit:
  "a \<in> set (cache s) \<Longrightarrow>
     access s r a =
       (let s2 = snd (update_on_hit (s\<lparr>accesses := accesses s @ [a], hits := hits s + 1\<rparr>) a)
        in (Inr True, s2\<lparr>hit_rate_history := hit_rate_history s2 @ [get_hit_rate s2]\<rparr>))"
  using update_on_hit_resident [of a "s\<lparr>accesses := accesses s @ [a], hits := hits s + 1\<rparr>"]
  by (cases "update_on_hit (s\<lparr>accesses := accesses s @ [a], hits := hits s + 1\<rparr>) a")
    (auto simp: access_def Let_def)

lemma access_miss:
  "a \<notin> set (cache s) \<Longrightarrow>
     access s r a =
       (case update_on_miss (s\<lparr>accesses := accesses s @ [a], misses := misses s + 1\<rparr>) r a of
          (Some e, s2) \<Rightarrow> (Inl e, s2)
        | (None, s2) \<Rightarrow>
            (Inr False, s2\<lparr>hit_rate_history := hit_rate_history s2 @ [get_hit_rate s2]\<rparr>))"
  by (simp add: access_def Let_def)

lemma access_bound:
  assumes "int (length (cache s)) \<le> capacity s"
  shows "int (length (cache (snd (access s r a)))) \<le> capacity s \<and>
         capacity (snd (access s r a)) = capacity s \<and>
         policy (snd (access s r a)) = policy s"
proof (cases "a \<in> set (cache s)")
  case True
  let ?s1 = "s\<lparr>accesses := accesses s @ [a], hits := hits s + 1\<rparr>"
  from True update_on_hit_resident [of a ?s1] update_on_hit_counters [of ?s1 a] assms
  show ?thesis
    by (simp add: access_hit Let_def same_counters_def)
next
  case False
  let ?s1 = "s\<lparr>accesses := accesses s @ [a], misses := misses s + 1\<rparr>"
  obtain e s2 where um: "update_on_miss ?s1 r a = (e, s2)"
    by (cases "update_on_miss ?s1 r a")
  from update_on_miss_props [OF um] assms False um show ?thesis
    by (cases e) (simp_all add: access_miss same_counters_def)
qed

lemma run_all_bound:
  "int (length (cache s)) \<le> capacity s \<Longrightarrow>
     int (length (cache (run_all s steps))) \<le> capacity s"
proof (induction steps arbitrary: s)
  case Nil
  then show ?case by simp
next
  case (Cons step steps)
  obtain r a where step: "step = (r, a)" by (cases step)
  from access_bound [OF Cons.prems, of r a]
  have "int (length (cache (snd (access s r a)))) \<le> capacity (snd (access s r a))"
    and cap: "capacity (snd (access s r a)) = capacity s" by simp_all
  from Cons.IH [OF this(1)] step cap show ?case by simp
qed

subsection \<open>The capacity invariant\<close>

text \<open>
  C1. For every non-negative capacity, every policy and every sequence of calls of
  \<^verbatim>\<open>access\<close> on a fresh simulator (every address, every draw, calls that raise
  included), the cache holds at most \<open>capacity\<close> addresses afterwards. The sequence is
  arbitrary, so this is the state after each call of every trace.
\<close>

theorem capacity_invariant:
  "0 \<le> c \<Longrightarrow> int (length (cache (run_all (new_sim c p) steps))) \<le> c"
  using run_all_bound [of "new_sim c p" steps] by (simp add: new_sim_def)

theorem capacity_invariant_witness:
  "(0::int) \<le> 2 \<and>
   int (length (cache (run_all (new_sim 2 RANDOM) [(0, 7), (0, 8), (1, 9), (5, 7)]))) \<le> 2"
  using capacity_invariant [of 2 RANDOM "[(0, 7), (0, 8), (1, 9), (5, 7)]"] by simp

subsection \<open>Hits\<close>

text \<open>
  C4. In every state and for every address and draw, \<^verbatim>\<open>access\<close> returns \<^verbatim>\<open>True\<close>
  exactly when the address is a key of the cache before the call, and then the set of
  keys is the same after the call.
\<close>

theorem access_hit_iff_resident:
  "(fst (access s r a) = Inr True) = (a \<in> set (cache s)) \<and>
   (a \<in> set (cache s) \<longrightarrow> set (cache (snd (access s r a))) = set (cache s))"
proof (cases "a \<in> set (cache s)")
  case True
  with update_on_hit_resident [of a "s\<lparr>accesses := accesses s @ [a], hits := hits s + 1\<rparr>"]
  show ?thesis
    by (simp add: access_hit Let_def)
next
  case False
  then show ?thesis
    by (auto simp: access_miss split: prod.splits option.splits)
qed

theorem access_hit_iff_resident_witness:
  "(7::int) \<in> set (cache (run_all (new_sim 2 LRU) [(0, 7), (0, 8)])) \<and>
   fst (access (run_all (new_sim 2 LRU) [(0, 7), (0, 8)]) 0 7) = Inr True \<and>
   set (cache (snd (access (run_all (new_sim 2 LRU) [(0, 7), (0, 8)]) 0 7))) =
     set (cache (run_all (new_sim 2 LRU) [(0, 7), (0, 8)]))"
proof -
  have res: "(7::int) \<in> set (cache (run_all (new_sim 2 LRU) [(0, 7), (0, 8)]))"
    by (simp add: access_def update_on_hit_def update_on_miss_def evict_def new_sim_def
      od_set_def od_del_def od_move_to_end_def get_hit_rate_def Let_def)
  with access_hit_iff_resident [of "run_all (new_sim 2 LRU) [(0, 7), (0, 8)]" 0 7]
  show ?thesis by blast
qed

subsection \<open>The sequential trace\<close>

text \<open>A miss below capacity inserts at the end and evicts nothing.\<close>

lemma access_fresh:
  assumes "a \<notin> set (cache s)" and "int (length (cache s)) < capacity s"
  shows "\<exists>s'. access s r a = (Inr False, s') \<and> cache s' = cache s @ [a] \<and>
              hits s' = hits s \<and> misses s' = misses s + 1 \<and> capacity s' = capacity s"
  using assms
  by (cases "policy s")
    (simp_all add: access_miss update_on_miss_def od_set_def od_move_to_end_def Let_def)

lemma simulate_all_fresh:
  "distinct (map snd steps) \<Longrightarrow> set (map snd steps) \<inter> set (cache s) = {} \<Longrightarrow>
   int (length (cache s)) + int (length steps) \<le> capacity s \<Longrightarrow>
   \<exists>s'. simulate s steps = Inr (replicate (length steps) False, s') \<and>
        hits s' = hits s \<and> misses s' = misses s + int (length steps)"
proof (induction steps arbitrary: s)
  case Nil
  then show ?case by simp
next
  case (Cons step steps)
  obtain r a where step: "step = (r, a)" by (cases step)
  from Cons.prems step have fresh: "a \<notin> set (cache s)" "int (length (cache s)) < capacity s"
    by auto
  from access_fresh [OF fresh, of r] obtain s1 where
    s1: "access s r a = (Inr False, s1)" "cache s1 = cache s @ [a]" "hits s1 = hits s"
      "misses s1 = misses s + 1" "capacity s1 = capacity s"
    by blast
  from Cons.prems step s1 have
    "distinct (map snd steps)" "set (map snd steps) \<inter> set (cache s1) = {}"
    "int (length (cache s1)) + int (length steps) \<le> capacity s1"
    by auto
  from Cons.IH [OF this] obtain s' where
    "simulate s1 steps = Inr (replicate (length steps) False, s')" "hits s' = hits s1"
    "misses s' = misses s1 + int (length steps)"
    by blast
  with s1 step show ?case by simp
qed

text \<open>
  C8. For every length and every capacity at least the length, every policy and all
  draws, feeding the pattern \<^verbatim>\<open>sequential\<close> of that length to a fresh simulator
  raises in no call, every call returns a miss, and the final hit rate is 0, from
  \<^verbatim>\<open>get_hit_rate\<close> and in the snapshot.
\<close>

theorem sequential_trace_all_misses:
  assumes "length' \<le> c"
    and "map snd steps = generate_access_pattern g ''sequential'' length'"
  shows "\<exists>s. simulate (new_sim c p) steps = Inr (replicate (length steps) False, s) \<and>
             hits s = 0 \<and> get_hit_rate s = 0 \<and> hit_rate (get_statistics s) = 0"
proof (cases "steps = []")
  case True
  then show ?thesis
    by (simp add: new_sim_def get_hit_rate_def get_statistics_def)
next
  case False
  from assms(2) have tr: "map snd steps = [0 ..length' - 1]"
    by (simp add: generate_access_pattern_def)
  then have "length steps = nat length'"
    using length_map [of snd steps] by simp
  moreover from False have "0 < length steps" by simp
  ultimately have "int (length steps) = length'" by simp
  with assms(1) have
    "int (length (cache (new_sim c p))) + int (length steps) \<le> capacity (new_sim c p)"
    by (simp add: new_sim_def)
  moreover from tr have "distinct (map snd steps)" by simp
  moreover have "set (map snd steps) \<inter> set (cache (new_sim c p)) = {}"
    by (simp add: new_sim_def)
  ultimately obtain s where
    "simulate (new_sim c p) steps = Inr (replicate (length steps) False, s)"
    "hits s = hits (new_sim c p)"
    using simulate_all_fresh [of steps "new_sim c p"] by blast
  then show ?thesis
    by (auto simp: new_sim_def no_hits_rate get_statistics_def)
qed

theorem sequential_trace_all_misses_witness:
  "(3::int) \<le> 3 \<and>
   map snd [(0::nat, 0::int), (0, 1), (0, 2)] = generate_access_pattern (\<lambda>k. 0) ''sequential'' 3 \<and>
   (\<exists>s. simulate (new_sim 3 LFU) [(0, 0), (0, 1), (0, 2)] = Inr ([False, False, False], s) \<and>
        get_hit_rate s = 0)"
proof -
  have tr: "map snd [(0::nat, 0::int), (0, 1), (0, 2)] =
      generate_access_pattern (\<lambda>k. 0) ''sequential'' 3"
    by (simp add: generate_access_pattern_def upto.simps)
  have le: "(3::int) \<le> 3" by simp
  from sequential_trace_all_misses [OF le tr, of LFU] tr show ?thesis
    by (auto simp: numeral_3_eq_3)
qed

subsection \<open>Counters and history\<close>

lemma get_hit_rate_double:
  "hits s = int h \<Longrightarrow> misses s = int m \<Longrightarrow> get_hit_rate s = double_hit_rate h (h + m)"
  by (auto simp: get_hit_rate_def double_hit_rate_def Let_def)

lemma get_hit_rate_cong:
  "same_counters s s' \<Longrightarrow> get_hit_rate s' = get_hit_rate s"
  by (simp add: get_hit_rate_def same_counters_def Let_def)

lemma access_counts:
  assumes "access s r a = (Inr b, s')"
  shows "hits s' = hits s + (if b then 1 else 0) \<and>
         misses s' = misses s + (if b then 0 else 1) \<and>
         hit_rate_history s' = hit_rate_history s @ [get_hit_rate s']"
proof (cases "a \<in> set (cache s)")
  case True
  let ?s1 = "s\<lparr>accesses := accesses s @ [a], hits := hits s + 1\<rparr>"
  from True assms update_on_hit_counters [of ?s1 a] show ?thesis
    by (auto simp: access_hit Let_def same_counters_def get_hit_rate_def)
next
  case False
  let ?s1 = "s\<lparr>accesses := accesses s @ [a], misses := misses s + 1\<rparr>"
  obtain e s2 where um: "update_on_miss ?s1 r a = (e, s2)"
    by (cases "update_on_miss ?s1 r a")
  from update_on_miss_props [OF um] assms False um show ?thesis
    by (cases e) (auto simp: access_miss same_counters_def get_hit_rate_def Let_def)
qed

lemma count_hits_Cons: "count_hits (b # bs) = (if b then 1 else 0) + count_hits bs"
  by (simp add: count_hits_def)

lemma simulate_counts:
  "simulate s steps = Inr (bs, s') \<Longrightarrow> hits s = int h \<Longrightarrow> misses s = int m \<Longrightarrow>
     length bs = length steps \<and>
     hits s' = int (h + count_hits bs) \<and>
     hits s' + misses s' = int (h + m + length bs) \<and>
     hit_rate_history s' =
       hit_rate_history s @
       map (\<lambda>i. double_hit_rate (h + count_hits (take (Suc i) bs)) (h + m + Suc i))
         [0 ..< length bs]"
proof (induction steps arbitrary: s bs h m)
  case Nil
  then show ?case by (simp add: count_hits_def)
next
  case (Cons step steps)
  obtain r a where step: "step = (r, a)" by (cases step)
  from Cons.prems(1) step obtain b s1 bs' where
    acc: "access s r a = (Inr b, s1)" and sim: "simulate s1 steps = Inr (bs', s')"
    and bs: "bs = b # bs'"
    by (auto split: prod.splits sum.splits)
  define h1 where "h1 = h + (if b then 1 else 0)"
  define m1 where "m1 = m + (if b then 0 else 1)"
  from access_counts [OF acc] Cons.prems(2,3) have
    c1: "hits s1 = int h1" "misses s1 = int m1"
    and hist1: "hit_rate_history s1 = hit_rate_history s @ [get_hit_rate s1]"
    by (simp_all add: h1_def m1_def)
  have tot: "h1 + m1 = h + m + 1" by (simp add: h1_def m1_def)
  from get_hit_rate_double [OF c1] tot have
    r1: "get_hit_rate s1 = double_hit_rate h1 (h + m + 1)" by simp
  from Cons.IH [OF sim c1] have ih:
    "length bs' = length steps"
    "hits s' = int (h1 + count_hits bs')"
    "hits s' + misses s' = int (h1 + m1 + length bs')"
    "hit_rate_history s' =
       hit_rate_history s1 @
       map (\<lambda>i. double_hit_rate (h1 + count_hits (take (Suc i) bs')) (h1 + m1 + Suc i))
         [0 ..< length bs']"
    by simp_all
  have shift: "\<And>i. h + count_hits (take (Suc (Suc i)) bs) = h1 + count_hits (take (Suc i) bs')"
    by (simp add: bs h1_def count_hits_Cons)
  have first: "h + count_hits (take (Suc 0) bs) = h1"
    by (simp add: bs h1_def count_hits_def)
  have "map (\<lambda>i. double_hit_rate (h + count_hits (take (Suc i) bs)) (h + m + Suc i))
          [0 ..< length bs] =
        double_hit_rate h1 (h + m + 1) #
        map (\<lambda>i. double_hit_rate (h1 + count_hits (take (Suc i) bs')) (h1 + m1 + Suc i))
          [0 ..< length bs']"
    using first shift tot by (simp add: bs map_upt_Suc del: upt_Suc take_Suc_Cons)
  with ih hist1 r1 tot show ?case
    by (simp add: bs count_hits_Cons h1_def)
qed

subsection \<open>Calls return when the capacity is at least 1\<close>

lemma min_scan_mem: "min_scan p ps \<in> fst ` set (p # ps)"
  by (induction ps arbitrary: p) (auto split: if_splits)

lemma dict_min_key_mem: "d \<noteq> [] \<Longrightarrow> \<exists>k. dict_min_key d = Inr k \<and> k \<in> set (map fst d)"
proof (cases d)
  case Nil
  assume "d \<noteq> []"
  with Nil show ?thesis by simp
next
  case (Cons p ps)
  with min_scan_mem [of p ps] show ?thesis by (simp add: dict_min_key_def)
qed

lemma keys_filter: "map fst (filter (\<lambda>p. fst p \<noteq> k) d) = removeAll k (map fst d)"
  by (induction d) auto

lemma keys_dict_del:
  "k \<in> set (map fst d) \<Longrightarrow>
     \<exists>d'. dict_del k d = Inr d' \<and> map fst d' = removeAll k (map fst d)"
  by (simp add: dict_del_def keys_filter)

lemma keys_dict_set:
  "map fst (dict_set k v d) = (if k \<in> set (map fst d) then map fst d else map fst d @ [k])"
  by (induction d) auto

lemma od_del_mem: "k \<in> set xs \<Longrightarrow> od_del k xs = Inr (removeAll k xs)"
  by (simp add: od_del_def)

lemma evict_consistent:
  assumes "distinct (cache s)" and "cache s \<noteq> []"
    and "policy s = FIFO \<longrightarrow> fifo_queue s = cache s"
    and "policy s = LFU \<longrightarrow> map fst (frequency s) = cache s"
  shows "\<exists>s1 k. evict s r = (None, s1) \<and> k \<in> set (cache s) \<and>
           cache s1 = removeAll k (cache s) \<and>
           (policy s = FIFO \<longrightarrow> fifo_queue s1 = cache s1) \<and>
           (policy s = LFU \<longrightarrow> map fst (frequency s1) = cache s1)"
proof (cases "policy s")
  case LRU
  from assms(2) obtain h t where c: "cache s = h # t" by (cases "cache s") auto
  with LRU show ?thesis
    by (intro exI [of _ "s\<lparr>cache := removeAll h (cache s)\<rparr>"] exI [of _ h])
      (simp add: evict_LRU od_del_def)
next
  case FIFO
  from assms(2) obtain h t where c: "cache s = h # t" by (cases "cache s") auto
  with assms(1) have t: "removeAll h (cache s) = t" by simp
  from FIFO assms(3) c have q: "fifo_queue s = h # t" by simp
  from FIFO c q t show ?thesis
    by (intro exI [of _ "s\<lparr>fifo_queue := t, cache := t\<rparr>"] exI [of _ h])
      (simp add: evict_FIFO od_del_def)
next
  case LFU
  with assms(4) have keys: "map fst (frequency s) = cache s" by simp
  with assms(2) have "frequency s \<noteq> []" by auto
  from dict_min_key_mem [OF this] keys obtain k where
    k: "dict_min_key (frequency s) = Inr k" "k \<in> set (cache s)" by auto
  from keys_dict_del [of k "frequency s"] k(2) keys obtain f where
    f: "dict_del k (frequency s) = Inr f" "map fst f = removeAll k (cache s)" by auto
  from LFU k f show ?thesis
    by (intro exI [of _ "s\<lparr>cache := removeAll k (cache s), frequency := f\<rparr>"] exI [of _ k])
      (simp add: evict_LFU od_del_mem)
next
  case RANDOM
  let ?k = "cache s ! (r mod length (cache s))"
  from assms(2) have "?k \<in> set (cache s)" by simp
  with RANDOM assms(2) show ?thesis
    by (intro exI [of _ "s\<lparr>cache := removeAll ?k (cache s)\<rparr>"] exI [of _ ?k])
      (simp add: evict_RANDOM od_del_mem)
qed

lemma consistent_counters [simp]:
  "consistent (s\<lparr>accesses := xs\<rparr>) = consistent s"
  "consistent (s\<lparr>hits := h\<rparr>) = consistent s"
  "consistent (s\<lparr>misses := m\<rparr>) = consistent s"
  "consistent (s\<lparr>hit_rate_history := hs\<rparr>) = consistent s"
  by (simp_all add: consistent_def)

lemma update_on_hit_consistent:
  assumes "a \<in> set (cache s)" and "consistent s"
  shows "consistent (snd (update_on_hit s a))"
  using assms length_move_to_end [of a "cache s"]
  by (cases "policy s")
    (auto simp: update_on_hit_def od_move_to_end_def consistent_def keys_dict_set
      distinct_removeAll)

lemma insert_consistent:
  assumes "1 \<le> capacity s1" and "int (length (cache s1)) < capacity s1"
    and "distinct (cache s1)" and "a \<notin> set (cache s1)"
    and "policy s1 = FIFO \<longrightarrow> fifo_queue s1 = cache s1"
    and "policy s1 = LFU \<longrightarrow> map fst (frequency s1) = cache s1"
  shows "\<exists>s'. insert_part s1 a = (None, s') \<and> consistent s'"
  using assms
  by (cases "policy s1")
    (simp_all add: Let_def od_set_def od_move_to_end_def consistent_def keys_dict_set)

lemma update_on_miss_consistent:
  assumes "a \<notin> set (cache s)" and "consistent s"
  shows "\<exists>s'. update_on_miss s r a = (None, s') \<and> consistent s'"
proof (cases "int (length (cache s)) \<ge> capacity s")
  case True
  with assms(2) have ne: "cache s \<noteq> []" by (auto simp: consistent_def)
  from assms(2) have inv: "distinct (cache s)"
    "policy s = FIFO \<longrightarrow> fifo_queue s = cache s"
    "policy s = LFU \<longrightarrow> map fst (frequency s) = cache s"
    by (simp_all add: consistent_def)
  from evict_consistent [OF inv(1) ne inv(2,3), of r] obtain s1 k where
    ev: "evict s r = (None, s1)" and k: "k \<in> set (cache s)"
    and c1: "cache s1 = removeAll k (cache s)"
    and q1: "policy s = FIFO \<longrightarrow> fifo_queue s1 = cache s1"
    and f1: "policy s = LFU \<longrightarrow> map fst (frequency s1) = cache s1"
    by blast
  from evict_props [OF ev] have same: "capacity s1 = capacity s" "policy s1 = policy s"
    and less: "length (cache s1) < length (cache s)"
    by (simp_all add: same_counters_def)
  from assms(2) less same have "1 \<le> capacity s1" "int (length (cache s1)) < capacity s1"
    by (simp_all add: consistent_def)
  moreover from inv(1) c1 have "distinct (cache s1)" by (simp add: distinct_removeAll)
  moreover from assms(1) c1 have "a \<notin> set (cache s1)" by simp
  moreover from q1 f1 same have "policy s1 = FIFO \<longrightarrow> fifo_queue s1 = cache s1"
    "policy s1 = LFU \<longrightarrow> map fst (frequency s1) = cache s1" by simp_all
  ultimately obtain s' where "insert_part s1 a = (None, s')" "consistent s'"
    using insert_consistent [of s1 a] by blast
  with True ev show ?thesis by (simp add: update_on_miss_def)
next
  case False
  with assms have "1 \<le> capacity s" "int (length (cache s)) < capacity s"
    "distinct (cache s)" "a \<notin> set (cache s)"
    "policy s = FIFO \<longrightarrow> fifo_queue s = cache s"
    "policy s = LFU \<longrightarrow> map fst (frequency s) = cache s"
    by (simp_all add: consistent_def)
  from insert_consistent [OF this] obtain s' where
    "insert_part s a = (None, s')" "consistent s'" by blast
  with False show ?thesis by (simp add: update_on_miss_def)
qed

lemma access_consistent:
  assumes "consistent s"
  shows "\<exists>b s'. access s r a = (Inr b, s') \<and> consistent s'"
proof (cases "a \<in> set (cache s)")
  case True
  let ?s1 = "s\<lparr>accesses := accesses s @ [a], hits := hits s + 1\<rparr>"
  from True assms have "consistent (snd (update_on_hit ?s1 a))"
    by (intro update_on_hit_consistent) simp_all
  with True show ?thesis by (auto simp: access_hit Let_def)
next
  case False
  let ?s1 = "s\<lparr>accesses := accesses s @ [a], misses := misses s + 1\<rparr>"
  from False assms have "\<exists>s'. update_on_miss ?s1 r a = (None, s') \<and> consistent s'"
    by (intro update_on_miss_consistent) simp_all
  then obtain s2 where "update_on_miss ?s1 r a = (None, s2)" "consistent s2" by blast
  with False show ?thesis by (auto simp: access_miss)
qed

lemma simulate_returns:
  "consistent s \<Longrightarrow> \<exists>bs s'. simulate s steps = Inr (bs, s') \<and> consistent s'"
proof (induction steps arbitrary: s)
  case Nil
  then show ?case by simp
next
  case (Cons step steps)
  obtain r a where step: "step = (r, a)" by (cases step)
  from access_consistent [OF Cons.prems, of r a] obtain b s1 where
    acc: "access s r a = (Inr b, s1)" "consistent s1" by blast
  from Cons.IH [OF acc(2)] obtain bs s' where
    "simulate s1 steps = Inr (bs, s')" "consistent s'" by blast
  with acc step show ?case by simp
qed

lemma new_sim_consistent: "1 \<le> c \<Longrightarrow> consistent (new_sim c p)"
  by (simp add: consistent_def new_sim_def)

subsection \<open>The hit rate\<close>

text \<open>
  C5, as stated, fails. A simulator of capacity 2 under LRU is fed the trace
  \<open>[1, 2, 1]\<close>: no call raises, the outcomes are miss, miss, hit, so \<open>n = 3\<close> and
  \<open>h = 1\<close>. The hit rate of the snapshot is the double \<open>2345624805922133 / 2 ^ 46\<close>,
  printed \<^verbatim>\<open>33.33333333333333\<close>: it is neither the number \<open>100 * h / n\<close> nor the double
  nearest to it, which \<^verbatim>\<open>100 * h / n\<close> gives in Python. And after one call on a simulator
  of capacity 0, which raises, the counters sum to 1 while the history is empty.
\<close>

theorem hit_rate_formula_counterexample:
  "simulate (new_sim 2 LRU) [(0, 1), (0, 2), (0, 1)] =
     Inr ([False, False, True], run_all (new_sim 2 LRU) [(0, 1), (0, 2), (0, 1)]) \<and>
   hit_rate (get_statistics (run_all (new_sim 2 LRU) [(0, 1), (0, 2), (0, 1)])) =
     2345624805922133 / 70368744177664 \<and>
   hit_rate (get_statistics (run_all (new_sim 2 LRU) [(0, 1), (0, 2), (0, 1)])) \<noteq>
     spec_hit_rate 1 3 \<and>
   hit_rate (get_statistics (run_all (new_sim 2 LRU) [(0, 1), (0, 2), (0, 1)])) \<noteq>
     int_true_div (100 * 1) 3 \<and>
   hits (run_all (new_sim 0 LRU) [(0, 1)]) + misses (run_all (new_sim 0 LRU) [(0, 1)]) = 1 \<and>
   length (hit_rate_history (run_all (new_sim 0 LRU) [(0, 1)])) = 0"
proof -
  have rate: "float_mul (int_true_div 1 3) 100 = 2345624805922133 / 70368744177664"
    by (simp add: float_defs)
  have near: "int_true_div 100 3 = 4691249611844267 / 140737488355328"
    by (simp add: float_defs)
  show ?thesis
    by (simp add: sim_defs get_statistics_def rate near spec_hit_rate_def)
qed

text \<open>
  C5, amended. A fresh simulator of capacity at least 1 is fed \<open>n\<close> calls, under any
  policy and with any draws. Every call returns. With \<open>h\<close> hits among the outcomes: the
  counter \<^verbatim>\<open>hits\<close> is \<open>h\<close> and the counters sum to \<open>n\<close>; the hit rate of the snapshot
  is the float \<^verbatim>\<open>h / n * 100\<close>, the quotient rounded to a double and the product rounded
  again, and 0 when \<open>n = 0\<close>; the history has length \<open>n\<close>; its last element is the hit
  rate of the snapshot; and its element \<open>i\<close> is that float for the first \<open>i + 1\<close>
  calls.
\<close>

theorem hit_rate_formula:
  assumes "1 \<le> c"
  shows "\<exists>bs s. simulate (new_sim c p) steps = Inr (bs, s) \<and>
      length bs = length steps \<and>
      hits s = int (count_hits bs) \<and>
      hits s + misses s = int (length steps) \<and>
      hit_rate (get_statistics s) = double_hit_rate (count_hits bs) (length steps) \<and>
      length (hit_rate_history s) = length steps \<and>
      (steps \<noteq> [] \<longrightarrow> last (hit_rate_history s) = hit_rate (get_statistics s)) \<and>
      (\<forall>i < length steps.
         hit_rate_history s ! i = double_hit_rate (count_hits (take (Suc i) bs)) (Suc i))"
proof -
  from simulate_returns [OF new_sim_consistent [OF assms], of p steps]
  obtain bs s where sim: "simulate (new_sim c p) steps = Inr (bs, s)" by blast
  have z: "hits (new_sim c p) = int 0" "misses (new_sim c p) = int 0"
    by (simp_all add: new_sim_def)
  from simulate_counts [OF sim z] have
    len: "length bs = length steps"
    and h: "hits s = int (count_hits bs)"
    and tot: "hits s + misses s = int (length bs)"
    and hist: "hit_rate_history s =
      map (\<lambda>i. double_hit_rate (count_hits (take (Suc i) bs)) (Suc i)) [0 ..< length bs]"
    by (simp_all add: new_sim_def)
  from h tot have m: "misses s = int (length bs - count_hits bs)"
    by (simp add: count_hits_def)
  have le: "count_hits bs \<le> length bs" by (simp add: count_hits_def)
  from get_hit_rate_double [OF h m] le have
    rate: "get_hit_rate s = double_hit_rate (count_hits bs) (length bs)" by simp
  from rate len have
    hr: "hit_rate (get_statistics s) = double_hit_rate (count_hits bs) (length steps)"
    by (simp add: get_statistics_def)
  from hist len have hl: "length (hit_rate_history s) = length steps" by simp
  have la: "steps \<noteq> [] \<longrightarrow> last (hit_rate_history s) = hit_rate (get_statistics s)"
  proof
    assume "steps \<noteq> []"
    with len have pos: "0 < length bs" by simp
    with hist have "last (hit_rate_history s) =
        double_hit_rate (count_hits (take (Suc (length bs - 1)) bs)) (Suc (length bs - 1))"
      by (simp add: last_map last_upt)
    with pos hr len
    show "last (hit_rate_history s) = hit_rate (get_statistics s)" by simp
  qed
  from hist len have nth: "\<forall>i < length steps.
      hit_rate_history s ! i = double_hit_rate (count_hits (take (Suc i) bs)) (Suc i)"
    by simp
  from tot len have tot': "hits s + misses s = int (length steps)" by simp
  from sim len h tot' hr hl la nth show ?thesis by blast
qed

theorem hit_rate_formula_witness:
  "(1::int) \<le> 2 \<and>
   (\<exists>s. simulate (new_sim 2 LRU) [(0, 1), (0, 2), (0, 1)] = Inr ([False, False, True], s) \<and>
        hits s = 1 \<and>
        hit_rate (get_statistics s) = 2345624805922133 / 70368744177664 \<and>
        length (hit_rate_history s) = 3 \<and>
        last (hit_rate_history s) = 2345624805922133 / 70368744177664 \<and>
        hit_rate_history s ! 0 = 0 \<and> hit_rate_history s ! 1 = 0 \<and>
        hit_rate_history s ! 2 = 2345624805922133 / 70368744177664)"
proof -
  let ?steps = "[(0::nat, 1::int), (0, 2), (0, 1)]"
  have c: "(1::int) \<le> 2" by simp
  have run: "\<exists>s. simulate (new_sim 2 LRU) ?steps = Inr ([False, False, True], s)"
    by (simp add: sim_defs)
  from hit_rate_formula [OF c, of LRU ?steps] run obtain s where
    s: "simulate (new_sim 2 LRU) ?steps = Inr ([False, False, True], s)"
    and f: "hits s = int (count_hits [False, False, True])"
      "hit_rate (get_statistics s) = double_hit_rate (count_hits [False, False, True]) (length ?steps)"
      "length (hit_rate_history s) = length ?steps"
      "?steps \<noteq> [] \<longrightarrow> last (hit_rate_history s) = hit_rate (get_statistics s)"
      "\<forall>i < length ?steps. hit_rate_history s ! i =
         double_hit_rate (count_hits (take (Suc i) [False, False, True])) (Suc i)"
    by auto
  have rate: "float_mul (int_true_div 1 3) 100 = 2345624805922133 / 70368744177664"
    by (simp add: float_defs)
  have zero: "\<And>n. float_mul (int_true_div 0 n) 100 = 0"
    by (simp add: int_true_div_def float_mul_def round_double_0)
  from f(1) have h: "hits s = 1" by (simp add: count_hits_def)
  from f(2) have r: "hit_rate (get_statistics s) = 2345624805922133 / 70368744177664"
    by (simp add: count_hits_def double_hit_rate_def rate)
  from f(3) have l: "length (hit_rate_history s) = 3" by simp
  from f(4) r have la: "last (hit_rate_history s) = 2345624805922133 / 70368744177664" by simp
  from f(5) have nth: "\<And>i. i < 3 \<Longrightarrow> hit_rate_history s ! i =
      double_hit_rate (count_hits (take (Suc i) [False, False, True])) (Suc i)"
    by simp
  from nth [of 0] have n0: "hit_rate_history s ! 0 = 0"
    by (simp add: count_hits_def double_hit_rate_def zero)
  from nth [of 1] have n1: "hit_rate_history s ! 1 = 0"
    by (simp add: count_hits_def double_hit_rate_def zero)
  from nth [of 2] have n2: "hit_rate_history s ! 2 = 2345624805922133 / 70368744177664"
    by (simp add: count_hits_def double_hit_rate_def rate)
  from c s h r l la n0 n1 n2 show ?thesis by blast
qed

subsection \<open>Capacity zero\<close>

text \<open>
  C2. With capacity 0 the first call of \<^verbatim>\<open>access\<close> on a fresh object finds
  \<open>len(cache) >= capacity\<close>, calls \<^verbatim>\<open>_evict\<close> on the empty cache and raises, under each
  of the four policies and for every address and every draw: the call does not return a
  miss. It leaves the cache empty, the counter \<^verbatim>\<open>misses\<close> at 1 and the history
  without an entry.
\<close>

theorem zero_capacity_access_raises:
  "fst (access (new_sim 0 LRU) r a) = Inl StopIteration \<and>
   fst (access (new_sim 0 FIFO) r a) = Inl IndexError \<and>
   fst (access (new_sim 0 LFU) r a) = Inl ValueError \<and>
   fst (access (new_sim 0 RANDOM) r a) = Inl IndexError \<and>
   cache (snd (access (new_sim 0 p) r a)) = [] \<and>
   misses (snd (access (new_sim 0 p) r a)) = 1 \<and>
   hit_rate_history (snd (access (new_sim 0 p) r a)) = []"
  by (cases p) (simp_all add: sim_defs)

subsection \<open>Construction\<close>

text \<open>
  C3, as stated, fails: constructing a simulator with the negative capacity \<open>-1\<close> does
  not raise.
\<close>

theorem negative_capacity_constructs: "\<not> isl (CacheSimulator_init (- 1) LRU)"
  by (simp add: CacheSimulator_init_def)

text \<open>
  C3, amended: construction succeeds for every integer capacity, negative ones included,
  and every policy; the object holds the capacity and the policy it was given and an empty
  cache.
\<close>

theorem init_always_succeeds:
  "\<exists>s. CacheSimulator_init c p = Inr s \<and> capacity s = c \<and> policy s = p \<and> cache s = []"
  by (simp add: CacheSimulator_init_def new_sim_def)

subsection \<open>Two traces\<close>

text \<open>
  C6. Capacity 2, policy FIFO, trace \<open>[1, 2, 1, 3]\<close>, whatever the draws: no call raises,
  the outcomes are miss, miss, hit, miss; before the last call the cache holds 1 and 2,
  after it 2 and 3, so inserting 3 evicted 1, the head of the queue, although 1 had been
  hit again.
\<close>

theorem fifo_trace:
  "(case simulate (new_sim 2 FIFO) [(r1, 1), (r2, 2), (r3, 1), (r4, 3)] of
      Inl e \<Rightarrow> False
    | Inr (bs, s) \<Rightarrow> bs = [False, False, True, False] \<and> set (cache s) = {2, 3}) \<and>
   cache (run_all (new_sim 2 FIFO) [(r1, 1), (r2, 2), (r3, 1)]) = [1, 2] \<and>
   cache (run_all (new_sim 2 FIFO) [(r1, 1), (r2, 2), (r3, 1), (r4, 3)]) = [2, 3]"
  by (simp add: sim_defs)

text \<open>
  C7. Capacity 2, policy LFU, trace \<open>[1, 2, 1, 3]\<close>, whatever the draws: no call raises,
  the outcomes are miss, miss, hit, miss; before the last call address 1 has frequency 2
  and address 2 frequency 1, and the cache holds 1 and 2; after it the cache holds 1 and
  3, so inserting 3 evicted 2.
\<close>

theorem lfu_trace:
  "(case simulate (new_sim 2 LFU) [(r1, 1), (r2, 2), (r3, 1), (r4, 3)] of
      Inl e \<Rightarrow> False
    | Inr (bs, s) \<Rightarrow> bs = [False, False, True, False] \<and> set (cache s) = {1, 3}) \<and>
   frequency (run_all (new_sim 2 LFU) [(r1, 1), (r2, 2), (r3, 1)]) = [(1, 2), (2, 1)] \<and>
   cache (run_all (new_sim 2 LFU) [(r1, 1), (r2, 2), (r3, 1)]) = [1, 2] \<and>
   cache (run_all (new_sim 2 LFU) [(r1, 1), (r2, 2), (r3, 1), (r4, 3)]) = [1, 3]"
  by (simp add: sim_defs)

subsection \<open>The stride pattern\<close>

text \<open>
  C9. For every source of randomness \<open>g\<close> the stride pattern of length 5 is
  \<open>[0, 4, 8, 12, 16]\<close>, and for every length two sources \<open>g\<close> and \<open>g'\<close> give the same
  stride pattern.
\<close>

theorem stride_deterministic:
  "generate_access_pattern g ''stride'' 5 = [0, 4, 8, 12, 16] \<and>
   generate_access_pattern g ''stride'' n = generate_access_pattern g' ''stride'' n"
  by (simp add: generate_access_pattern_def upto.simps)

subsection \<open>The statistics snapshot\<close>

text \<open>
  C10. When the counters sum to 0 the snapshot reports a hit rate of 0 and a miss rate of
  100; in every state the miss rate is the float subtraction of the hit rate from 100,
  whatever the counter of misses holds.
\<close>

theorem empty_statistics:
  "(hits s + misses s = 0 \<longrightarrow>
      hit_rate (get_statistics s) = 0 \<and> miss_rate (get_statistics s) = 100) \<and>
   miss_rate (get_statistics s) = float_sub 100 (hit_rate (get_statistics s))"
  by (simp add: get_statistics_def get_hit_rate_def float_sub_def round_double_100)

theorem empty_statistics_witness:
  "hits (new_sim 4 LRU) + misses (new_sim 4 LRU) = 0 \<and>
   hit_rate (get_statistics (new_sim 4 LRU)) = 0 \<and>
   miss_rate (get_statistics (new_sim 4 LRU)) = 100"
  using empty_statistics [of "new_sim 4 LRU"] by (simp add: new_sim_def)

end
